theory Spec2Isabelle
  imports Complex_Main "HOL-Library.AList" "HOL-Library.Multiset"
begin

section \<open>Shared expense splitter: the allocation and settlement engine\<close>

text \<open>
  A shallow embedding of \<^verbatim>\<open>backend.py\<close>: the participant record, the name
  deduplicator \<^verbatim>\<open>generate_unique_name\<close>, the fair-share calculator
  \<^verbatim>\<open>compute_fair_shares\<close> and the settlement solver \<^verbatim>\<open>compute_settlements\<close>.

  Conventions of the model.
  \<^item> Python's \<^verbatim>\<open>float\<close> amounts and weights are modelled as exact reals: every
    arithmetic step is the exact one, so the results below are about the algorithm in exact
    arithmetic, not about the rounding of IEEE doubles.
  \<^item> Strings are lists of 8-bit characters read as ASCII code points: whitespace, decimal
    digits and letter case are the ASCII ones.
  \<^item> A raised exception is a value \<open>Inl e\<close> of the result type.
  \<^item> A \<^verbatim>\<open>dict\<close> is an association list in insertion order with distinct keys;
    storing under a key that is present overwrites the value in place
    (\<^const>\<open>AList.update\<close>), as Python's dictionaries do.
\<close>

subsection \<open>Data model\<close>

record Participant =
  name :: string
  amount_spent :: real
  weight :: real
  note_str :: string

datatype py_error = ZeroDivisionError | KeyError

record transaction =
  From :: string
  To :: string
  Amount :: real

subsection \<open>Strings: \<^verbatim>\<open>str.strip\<close>, digits, case folding, \<^verbatim>\<open>int\<close> and \<^verbatim>\<open>str\<close>\<close>

definition is_space :: "char \<Rightarrow> bool" where
  "is_space c = (c \<in> set [CHR 0x09, CHR 0x0A, CHR 0x0B, CHR 0x0C, CHR 0x0D,
                           CHR 0x1C, CHR 0x1D, CHR 0x1E, CHR 0x1F, CHR 0x20])"

definition strip :: "string \<Rightarrow> string" where
  "strip s = rev (dropWhile is_space (rev (dropWhile is_space s)))"

definition is_digit :: "char \<Rightarrow> bool" where
  "is_digit c = (c \<in> set ''0123456789'')"

definition lower_char :: "char \<Rightarrow> char" where
  "lower_char c =
     (let n = (of_char c :: nat) in if 65 \<le> n \<and> n \<le> 90 then char_of (n + 32) else c)"

definition lower :: "string \<Rightarrow> string" where
  "lower s = map lower_char s"

definition digit_val :: "char \<Rightarrow> nat" where
  "digit_val c = of_char c - 48"

text \<open>\<^verbatim>\<open>int(s)\<close> on a string of decimal digits.\<close>

definition int_of_digits :: "string \<Rightarrow> nat" where
  "int_of_digits ds = foldl (\<lambda>a c. 10 * a + digit_val c) 0 ds"

text \<open>\<^verbatim>\<open>str(n)\<close> for a non-negative integer: its decimal digits.\<close>

fun str_nat :: "nat \<Rightarrow> string" where
  "str_nat n =
     (if n < 10 then [char_of (48 + n)] else str_nat (n div 10) @ [char_of (48 + n mod 10)])"

declare str_nat.simps [simp del]

subsection \<open>The two regular expressions\<close>

text \<open>
  \<^verbatim>\<open>$\<close> without \<^verbatim>\<open>re.MULTILINE\<close> matches at the end of the subject and just before a
  newline that is its last character.
\<close>

definition at_end :: "string \<Rightarrow> bool" where
  "at_end r = (r = [] \<or> r = [CHR 0x0A])"

text \<open>
  The group \<^verbatim>\<open> \((\d+)\)\<close> at the head of \<open>r\<close>: the digits captured and the rest of the
  subject. \<^verbatim>\<open>\d+\<close> is greedy, and since a closing parenthesis must follow, only the
  longest run of digits can match.
\<close>

definition suffix_group :: "string \<Rightarrow> (string \<times> string) option" where
  "suffix_group r =
     (case r of
        c1 # c2 # t \<Rightarrow>
          if c1 = CHR 0x20 \<and> c2 = CHR ''(''
          then (let ds = takeWhile is_digit t; t' = dropWhile is_digit t
                in if ds = [] then None
                   else (case t' of [] \<Rightarrow> None
                         | c3 # r' \<Rightarrow> if c3 = CHR '')'' then Some (ds, r') else None))
          else None
      | _ \<Rightarrow> None)"

text \<open>
  The common tail \<^verbatim>\<open>(?: \((\d+)\))?$\<close> of both patterns, matched against the rest \<open>r\<close>
  of the subject: \<open>None\<close> is no match, \<open>Some None\<close> a match without the optional group,
  \<open>Some (Some ds)\<close> a match whose group captured \<open>ds\<close>. The optional group is tried first.
\<close>

definition tail_match :: "string \<Rightarrow> string option option" where
  "tail_match r =
     (case suffix_group r of
        Some (ds, r') \<Rightarrow>
          if at_end r' then Some (Some ds) else if at_end r then Some None else None
      | None \<Rightarrow> if at_end r then Some None else None)"

text \<open>
  \<^verbatim>\<open>re.match(r"^(.*?)(?: \((\d+)\))?$", name)\<close>: the lazy \<^verbatim>\<open>.*?\<close> takes the shortest
  prefix after which the tail matches, and \<^verbatim>\<open>.\<close> does not match a newline. \<open>pre\<close> is
  the prefix consumed so far; the result is group 1 and group 2.
\<close>

fun re_base :: "string \<Rightarrow> string \<Rightarrow> (string \<times> string option) option" where
  "re_base pre [] = (case tail_match [] of Some g \<Rightarrow> Some (pre, g) | None \<Rightarrow> None)"
| "re_base pre (c # cs) =
     (case tail_match (c # cs) of
        Some g \<Rightarrow> Some (pre, g)
      | None \<Rightarrow> if c = CHR 0x0A then None else re_base (pre @ [c]) cs)"

text \<open>
  \<^verbatim>\<open>re.compile(rf"^{re.escape(base_name)}(?: \((\d+)\))?$", re.IGNORECASE).match(e)\<close>:
  the escaped base matches itself literally up to letter case, then the tail.
\<close>

definition pattern_match :: "string \<Rightarrow> string \<Rightarrow> string option option" where
  "pattern_match base_name e =
     (if length base_name \<le> length e \<and> lower (take (length base_name) e) = lower base_name
      then tail_match (drop (length base_name) e) else None)"

subsection \<open>\<^verbatim>\<open>generate_unique_name\<close>\<close>

definition base_of :: "string \<Rightarrow> string" where
  "base_of nm =
     (let nm' = strip nm
      in case re_base [] nm' of Some (g1, g2) \<Rightarrow> strip g1 | None \<Rightarrow> nm')"

text \<open>One iteration of the loop over \<^verbatim>\<open>existing_names\<close>.\<close>

definition scan_step :: "string \<Rightarrow> nat \<Rightarrow> string \<Rightarrow> nat" where
  "scan_step base_name max_suffix existing =
     (case pattern_match base_name (strip existing) of
        None \<Rightarrow> max_suffix
      | Some (Some ds) \<Rightarrow> max max_suffix (int_of_digits ds + 1)
      | Some None \<Rightarrow> max max_suffix 2)"

definition generate_unique_name :: "string \<Rightarrow> string list \<Rightarrow> string" where
  "generate_unique_name nm existing_names =
     (let base_name = base_of nm;
          max_suffix = foldl (scan_step base_name) 1 existing_names
      in if max_suffix = 1 then base_name
         else base_name @ '' ('' @ str_nat max_suffix @ '')'')"

subsection \<open>Arithmetic of the engine\<close>

definition py_div :: "real \<Rightarrow> real \<Rightarrow> py_error + real" where
  "py_div a b = (if b = 0 then Inl ZeroDivisionError else Inr (a / b))"

text \<open>
  Python's \<^verbatim>\<open>round(x, 2)\<close>: the decimal with two places nearest to \<open>x\<close>, a tie going to
  the even last digit.
\<close>

definition round_half_even :: "real \<Rightarrow> int" where
  "round_half_even x =
     (let f = \<lfloor>x\<rfloor>; r = x - of_int f
      in if r < 1 / 2 then f else if 1 / 2 < r then f + 1 else if even f then f else f + 1)"

definition py_round2 :: "real \<Rightarrow> real" where
  "py_round2 x = of_int (round_half_even (x * 100)) / 100"

definition total_weight :: "Participant list \<Rightarrow> real" where
  "total_weight participants = sum_list (map weight participants)"

definition total_spendings :: "Participant list \<Rightarrow> real" where
  "total_spendings participants = sum_list (map amount_spent participants)"

subsection \<open>\<^verbatim>\<open>compute_fair_shares\<close>\<close>

record fair_share_row =
  Name :: string
  Weight :: real
  Fair_Share :: real

definition normalised_share :: "Participant list \<Rightarrow> py_error + real" where
  "normalised_share participants =
     (if 0 < total_weight participants
      then py_div (total_spendings participants) (total_weight participants)
      else Inr 0)"

definition compute_fair_shares ::
  "Participant list \<Rightarrow> py_error + (real \<times> real \<times> fair_share_row list)" where
  "compute_fair_shares participants =
     (case normalised_share participants of
        Inl e \<Rightarrow> Inl e
      | Inr ns \<Rightarrow>
          Inr (total_spendings participants, ns,
               map (\<lambda>p. \<lparr>Name = name p, Weight = weight p,
                           Fair_Share = py_round2 (ns * weight p)\<rparr>) participants))"

subsection \<open>\<^verbatim>\<open>compute_settlements\<close>\<close>

text \<open>
  The dictionary comprehension \<^verbatim>\<open>{p.name: total_spendings * p.weight / total_weight ...}\<close>,
  one store per participant in list order, starting from the dictionary \<open>d\<close>.
\<close>

fun fair_shares_dict ::
  "real \<Rightarrow> real \<Rightarrow> Participant list \<Rightarrow> (string \<times> real) list \<Rightarrow> py_error + (string \<times> real) list"
where
  "fair_shares_dict ts tw [] d = Inr d"
| "fair_shares_dict ts tw (p # ps) d =
     (case py_div (ts * weight p) tw of
        Inl e \<Rightarrow> Inl e
      | Inr v \<Rightarrow> fair_shares_dict ts tw ps (AList.update (name p) v d))"

text \<open>\<^verbatim>\<open>{p.name: p.amount_spent - fair_shares[p.name] ...}\<close>\<close>

fun balances_dict ::
  "(string \<times> real) list \<Rightarrow> Participant list \<Rightarrow> (string \<times> real) list \<Rightarrow> py_error + (string \<times> real) list"
where
  "balances_dict fs [] d = Inr d"
| "balances_dict fs (p # ps) d =
     (case map_of fs (name p) of
        None \<Rightarrow> Inl KeyError
      | Some v \<Rightarrow> balances_dict fs ps (AList.update (name p) (amount_spent p - v) d))"

definition debtors_of :: "(string \<times> real) list \<Rightarrow> (string \<times> real) list" where
  "debtors_of balances =
     sort_key snd (map (\<lambda>(n, b). (n, - b)) (filter (\<lambda>(n, b). b < 0) balances))"

definition creditors_of :: "(string \<times> real) list \<Rightarrow> (string \<times> real) list" where
  "creditors_of balances =
     sort_key snd (map (\<lambda>(n, b). (n, b)) (filter (\<lambda>(n, b). 0 < b) balances))"

text \<open>
  The greedy two-pointer loop. The state is the two pointers, the two lists (updated in
  place by the source) and the transactions emitted so far. \<open>settle_step\<close> is the body
  of the \<^verbatim>\<open>while\<close>, \<open>settle_loop\<close> the loop; it returns the whole final state, of which
  the source returns the last component.
\<close>

type_synonym settle_state =
  "nat \<times> nat \<times> (string \<times> real) list \<times> (string \<times> real) list \<times> transaction list"

definition settle_guard :: "settle_state \<Rightarrow> bool" where
  "settle_guard s =
     (case s of (i, j, debtors, creditors, transactions) \<Rightarrow>
        i < length debtors \<and> j < length creditors)"

definition settle_step :: "settle_state \<Rightarrow> settle_state" where
  "settle_step s =
     (case s of (i, j, debtors, creditors, transactions) \<Rightarrow>
        (let debtor = fst (debtors ! i); debt = snd (debtors ! i);
             creditor = fst (creditors ! j); credit = snd (creditors ! j);
             amount = min debt credit;
             transactions' =
               transactions @ [\<lparr>From = debtor, To = creditor, Amount = py_round2 amount\<rparr>];
             debtors' = debtors[i := (debtor, debt - amount)];
             creditors' = creditors[j := (creditor, credit - amount)];
             i' = (if snd (debtors' ! i) = 0 then i + 1 else i);
             j' = (if snd (creditors' ! j) = 0 then j + 1 else j)
         in (i', j', debtors', creditors', transactions')))"

function settle_loop :: "settle_state \<Rightarrow> settle_state" where
  "settle_loop s = (if settle_guard s then settle_loop (settle_step s) else s)"
  by pat_completeness auto
termination
proof (relation "measure (\<lambda>(i, j, debtors, creditors, transactions).
                   (length debtors - i) + (length creditors - j))")
  show "wf (measure (\<lambda>(i, j, debtors, creditors, transactions).
                   (length debtors - i) + (length creditors - j)))"
    by simp
next
  fix s :: settle_state
  assume "settle_guard s"
  then show "(settle_step s, s) \<in> measure (\<lambda>(i, j, debtors, creditors, transactions).
                   (length debtors - i) + (length creditors - j))"
    by (cases s) (auto simp: settle_guard_def settle_step_def Let_def min_def)
qed

declare settle_loop.simps [simp del]

text \<open>
  Lines 69 to 72 of the source: the totals, the exact fair shares and the balances, both
  dictionaries keyed by the participant's name.
\<close>

definition balances_of :: "Participant list \<Rightarrow> py_error + (string \<times> real) list" where
  "balances_of participants =
     (let tw = total_weight participants; ts = total_spendings participants
      in case fair_shares_dict ts tw participants [] of
           Inl e \<Rightarrow> Inl e
         | Inr fair_shares \<Rightarrow> balances_dict fair_shares participants [])"

definition compute_settlements :: "Participant list \<Rightarrow> py_error + transaction list" where
  "compute_settlements participants =
     (case balances_of participants of
        Inl e \<Rightarrow> Inl e
      | Inr balances \<Rightarrow>
          (case settle_loop (0, 0, debtors_of balances, creditors_of balances, []) of
             (i, j, debtors, creditors, transactions) \<Rightarrow> Inr transactions))"

subsection \<open>Specification predicates\<close>


text \<open>
  A dictionary comprehension \<^verbatim>\<open>{k(p): v(p) for p in ps}\<close> as the fold of its stores
  over a starting dictionary.
\<close>

definition dict_fold ::
  "('p \<Rightarrow> string) \<Rightarrow> ('p \<Rightarrow> real) \<Rightarrow> 'p list \<Rightarrow> (string \<times> real) list \<Rightarrow> (string \<times> real) list"
where
  "dict_fold k v ps d = foldl (\<lambda>d p. AList.update (k p) (v p) d) d ps"













text \<open>
  Vocabulary for the name deduplicator. Two names \<open>collide\<close> when they are equal after
  trimming and case folding. \<open>scan_slot\<close> is what one iteration of the scan of
  \<^verbatim>\<open>generate_unique_name\<close> computes from its regular expression match: slot 1 for a match
  without the group, the number captured for a match with it. \<open>suffixed b k\<close> is the \<open>k\<close>-th
  name of the base \<open>b\<close>. \<open>dedupe_sequence b n\<close> is the list of names obtained by calling
  \<^verbatim>\<open>generate_unique_name\<close> \<open>n\<close> times with \<open>b\<close>, each time against the names returned so
  far.
\<close>

definition collides :: "string \<Rightarrow> string \<Rightarrow> bool" where
  "collides a b = (lower (strip a) = lower (strip b))"

definition scan_slot :: "string \<Rightarrow> string \<Rightarrow> nat option" where
  "scan_slot base_name existing =
     (case pattern_match base_name (strip existing) of
        None \<Rightarrow> None
      | Some None \<Rightarrow> Some 1
      | Some (Some ds) \<Rightarrow> Some (int_of_digits ds))"

definition suffixed :: "string \<Rightarrow> nat \<Rightarrow> string" where
  "suffixed b k = (if k = 1 then b else b @ '' ('' @ str_nat k @ '')'')"

fun dedupe_sequence :: "string \<Rightarrow> nat \<Rightarrow> string list" where
  "dedupe_sequence b 0 = []"
| "dedupe_sequence b (Suc n) =
     (let existing = dedupe_sequence b n in existing @ [generate_unique_name b existing])"

text \<open>
  The deduplication rule in words, without regular expressions. A number is a non-empty
  run of decimal digits. \<open>split_suffix t\<close> splits a text that ends in a space, an opening
  parenthesis, a number and a closing parenthesis into the text before that suffix and the
  number. The base of a candidate is the trimmed candidate without such a suffix, trimmed
  again; a candidate with a line break in it is only trimmed. An existing name occupies
  slot 1 for a base when, trimmed, it equals the base up to letter case, and slot \<open>k\<close> when
  it equals, up to letter case, the base followed by the suffix with the number \<open>k\<close>.
\<close>

definition is_number :: "string \<Rightarrow> bool" where
  "is_number ds = (ds \<noteq> [] \<and> list_all is_digit ds)"

definition split_suffix :: "string \<Rightarrow> (string \<times> string) option" where
  "split_suffix t =
     (if t \<noteq> [] \<and> last t = CHR '')'' then
        (let body = butlast t;
             ds = rev (takeWhile is_digit (rev body));
             pre = rev (dropWhile is_digit (rev body))
         in if ds \<noteq> [] \<and> 2 \<le> length pre \<and> last pre = CHR ''('' \<and> last (butlast pre) = CHR 0x20
            then Some (butlast (butlast pre), ds) else None)
      else None)"



section \<open>Properties\<close>

subsection \<open>Rounding\<close>





subsection \<open>The fair-share calculator\<close>




subsection \<open>Zero total weight and the empty list\<close>

lemma fair_shares_dict_zero_weight:
  "ps \<noteq> [] \<Longrightarrow> fair_shares_dict ts 0 ps d = Inl ZeroDivisionError"
  by (cases ps) (simp_all add: py_div_def)

lemma compute_settlements_zero_weight:
  "ps \<noteq> [] \<Longrightarrow> total_weight ps = 0 \<Longrightarrow> compute_settlements ps = Inl ZeroDivisionError"
  by (simp add: compute_settlements_def balances_of_def fair_shares_dict_zero_weight)

text \<open>
  Claim C1. With a total weight of 0 and at least one participant the settlement solver
  does not complete: the first fair share divides by the total weight and
  \<^verbatim>\<open>ZeroDivisionError\<close> is raised, here for a single participant of weight 0.
  (\<open>compute_settlements_zero_weight\<close> is the same fact for every such list.)
\<close>

theorem compute_settlements_zero_weight_raises:
  "compute_settlements [\<lparr>name = ''A'', amount_spent = 10, weight = 0, note_str = ''''\<rparr>]
     = Inl ZeroDivisionError"
  by (simp add: compute_settlements_zero_weight total_weight_def)

text \<open>
  Claim C9. On the empty participant list \<^verbatim>\<open>compute_fair_shares\<close> returns zero totals
  and no rows, \<^verbatim>\<open>compute_settlements\<close> returns no transaction, and neither raises.
\<close>

theorem empty_participants:
  "compute_fair_shares [] = Inr (0, 0, []) \<and> compute_settlements [] = Inr []"
  by (simp add: compute_fair_shares_def normalised_share_def total_weight_def
        total_spendings_def compute_settlements_def balances_of_def debtors_of_def
        creditors_of_def settle_loop.simps settle_guard_def)

subsection \<open>Dictionary comprehensions\<close>

lemma dict_fold_Nil [simp]: "dict_fold k v [] d = d"
  by (simp add: dict_fold_def)

lemma dict_fold_Cons [simp]:
  "dict_fold k v (p # ps) d = dict_fold k v ps (AList.update (k p) (v p) d)"
  by (simp add: dict_fold_def)

lemma dict_fold_snoc: "dict_fold k v (ps @ [p]) d = AList.update (k p) (v p) (dict_fold k v ps d)"
  by (simp add: dict_fold_def)

lemma dict_fold_distinct: "distinct (map fst d) \<Longrightarrow> distinct (map fst (dict_fold k v ps d))"
  by (induction ps arbitrary: d) (simp_all add: distinct_update)

lemma dict_fold_keys: "fst ` set (dict_fold k v ps d) = fst ` set d \<union> k ` set ps"
  by (induction ps arbitrary: d) (auto simp: dom_update)

lemma dict_fold_map_of:
  "map_of (dict_fold k v ps d) n =
     (case filter (\<lambda>p. k p = n) ps of [] \<Rightarrow> map_of d n | q # qs \<Rightarrow> Some (v (last (q # qs))))"
proof (induction ps rule: rev_induct)
  case Nil
  then show ?case by simp
next
  case (snoc p ps)
  then show ?case
    by (auto simp: dict_fold_snoc update_conv' split: list.splits)
qed

lemma dict_fold_fresh:
  "distinct (map k ps) \<Longrightarrow> fst ` set d \<inter> k ` set ps = {} \<Longrightarrow>
     dict_fold k v ps d = d @ map (\<lambda>p. (k p, v p)) ps"
proof (induction ps arbitrary: d)
  case Nil
  then show ?case by simp
next
  case (Cons p ps)
  have "k p \<notin> fst ` set d" using Cons.prems by auto
  then have upd: "AList.update (k p) (v p) d = d @ [(k p, v p)]"
    by (induction d) auto
  have "fst ` set (d @ [(k p, v p)]) \<inter> k ` set ps = {}"
    using Cons.prems by auto
  with Cons show ?case by (simp add: upd)
qed

lemma fair_shares_dict_fold:
  "tw \<noteq> 0 \<Longrightarrow>
     fair_shares_dict ts tw ps d = Inr (dict_fold name (\<lambda>p. ts * weight p / tw) ps d)"
  by (induction ps arbitrary: d) (simp_all add: py_div_def)

lemma balances_dict_fold:
  "name ` set ps \<subseteq> fst ` set fs \<Longrightarrow>
     balances_dict fs ps d =
       Inr (dict_fold name (\<lambda>p. amount_spent p - the (map_of fs (name p))) ps d)"
proof (induction ps arbitrary: d)
  case Nil
  then show ?case by simp
next
  case (Cons p ps)
  then have "name p \<in> fst ` set fs" by auto
  then obtain v where "map_of fs (name p) = Some v"
    by (metis domD dom_map_of_conv_image_fst)
  with Cons show ?case by simp
qed

subsection \<open>Fair shares and balances of the settlement solver\<close>

lemma balances_of_fold:
  assumes "total_weight ps \<noteq> 0"
  shows "balances_of ps =
     Inr (dict_fold name
            (\<lambda>p. amount_spent p -
               the (map_of (dict_fold name (\<lambda>p. total_spendings ps * weight p / total_weight ps) ps [])
                      (name p))) ps [])"
  using assms
  by (simp add: balances_of_def fair_shares_dict_fold balances_dict_fold dict_fold_keys)

lemma last_filter_name:
  assumes "p \<in> set ps"
  shows "last (filter (\<lambda>q. name q = name p) ps) \<in> set ps \<and>
         name (last (filter (\<lambda>q. name q = name p) ps)) = name p"
proof -
  have ne: "filter (\<lambda>q. name q = name p) ps \<noteq> []"
    using assms by (auto simp: filter_empty_conv)
  from last_in_set [OF ne] show ?thesis by auto
qed

lemma balances_of_map_of:
  assumes "total_weight ps \<noteq> 0" and "p \<in> set ps"
  shows "\<exists>bs. balances_of ps = Inr bs \<and> distinct (map fst bs) \<and> fst ` set bs = name ` set ps \<and>
     map_of bs (name p) =
       Some (let q = last (filter (\<lambda>q. name q = name p) ps)
             in amount_spent q - total_spendings ps * weight q / total_weight ps)"
proof -
  let ?n = "name p"
  let ?q = "last (filter (\<lambda>q. name q = ?n) ps)"
  let ?fs = "dict_fold name (\<lambda>p. total_spendings ps * weight p / total_weight ps) ps []"
  let ?bs = "dict_fold name (\<lambda>p. amount_spent p - the (map_of ?fs (name p))) ps []"
  have ne: "filter (\<lambda>q. name q = ?n) ps \<noteq> []"
    using assms(2) by (auto simp: filter_empty_conv)
  have q: "name ?q = ?n" using last_filter_name [OF assms(2)] by simp
  have fs: "map_of ?fs ?n = Some (total_spendings ps * weight ?q / total_weight ps)"
    using ne by (simp add: dict_fold_map_of split: list.splits)
  have "map_of ?bs ?n = Some (amount_spent ?q - the (map_of ?fs (name ?q)))"
    using ne by (simp add: dict_fold_map_of split: list.splits)
  then have "map_of ?bs ?n = Some (amount_spent ?q - total_spendings ps * weight ?q / total_weight ps)"
    by (simp add: q fs)
  moreover have "distinct (map fst ?bs)" by (simp add: dict_fold_distinct)
  moreover have "fst ` set ?bs = name ` set ps" by (simp add: dict_fold_keys)
  ultimately show ?thesis
    using balances_of_fold [OF assms(1)] by (simp add: Let_def)
qed

lemma map_of_keyed:
  "distinct (map k ps) \<Longrightarrow> p \<in> set ps \<Longrightarrow> map_of (map (\<lambda>p. (k p, v p)) ps) (k p) = Some (v p)"
  by (induction ps) (auto simp: image_iff)

lemma balances_of_distinct:
  assumes "total_weight ps \<noteq> 0" and "distinct (map name ps)"
  shows "balances_of ps =
     Inr (map (\<lambda>p. (name p, amount_spent p - total_spendings ps * weight p / total_weight ps)) ps)"
proof -
  let ?fs = "map (\<lambda>p. (name p, total_spendings ps * weight p / total_weight ps)) ps"
  have fs: "dict_fold name (\<lambda>p. total_spendings ps * weight p / total_weight ps) ps [] = ?fs"
    using assms(2) by (simp add: dict_fold_fresh)
  have look: "p \<in> set ps \<Longrightarrow> map_of ?fs (name p) = Some (total_spendings ps * weight p / total_weight ps)" for p
    using assms(2) by (rule map_of_keyed)
  have "dict_fold name (\<lambda>p. amount_spent p - the (map_of ?fs (name p))) ps []
      = map (\<lambda>p. (name p, amount_spent p - the (map_of ?fs (name p)))) ps"
    using assms(2) by (simp add: dict_fold_fresh)
  also have "\<dots> = map (\<lambda>p. (name p, amount_spent p - total_spendings ps * weight p / total_weight ps)) ps"
    by (rule map_cong) (simp_all add: look)
  finally show ?thesis
    using balances_of_fold [OF assms(1)] by (simp add: fs)
qed

lemma sum_exact_balances:
  assumes "total_weight ps \<noteq> 0"
  shows "(\<Sum>p\<leftarrow>ps. amount_spent p - total_spendings ps * weight p / total_weight ps) = 0"
proof -
  have "(\<Sum>p\<leftarrow>ps. total_spendings ps * weight p / total_weight ps)
      = (\<Sum>p\<leftarrow>ps. (total_spendings ps / total_weight ps) * weight p)"
    by simp
  also have "\<dots> = (total_spendings ps / total_weight ps) * total_weight ps"
    unfolding sum_list_const_mult by (simp add: total_weight_def)
  also have "\<dots> = total_spendings ps" using assms by simp
  finally have shares: "(\<Sum>p\<leftarrow>ps. total_spendings ps * weight p / total_weight ps) = total_spendings ps" .
  show ?thesis
    unfolding sum_list_subtractf shares by (simp add: total_spendings_def)
qed

text \<open>
  Claim C7. When the total weight is positive, the balances \<open>amount_spent - exactFairShare\<close>
  with \<open>exactFairShare = totalSpend * weight / totalWeight\<close>, taken over all participants
  without rounding, sum to exactly zero. When the names are pairwise distinct these are the
  values of the balance dictionary that \<^verbatim>\<open>compute_settlements\<close> builds, in list order.
\<close>

theorem balance_zero_sum:
  assumes "0 < total_weight ps"
  shows "(\<Sum>p\<leftarrow>ps. amount_spent p - total_spendings ps * weight p / total_weight ps) = 0 \<and>
         (distinct (map name ps) \<longrightarrow>
            (\<exists>bs. balances_of ps = Inr bs \<and>
                  map snd bs = map (\<lambda>p. amount_spent p - total_spendings ps * weight p / total_weight ps) ps \<and>
                  sum_list (map snd bs) = 0))"
  using assms sum_exact_balances [of ps] balances_of_distinct [of ps]
  by (auto simp: comp_def)

theorem balance_zero_sum_witness:
  "0 < total_weight [\<lparr>name = ''A'', amount_spent = 90, weight = 2, note_str = ''''\<rparr>,
                     \<lparr>name = ''B'', amount_spent = 0, weight = 1, note_str = ''''\<rparr>] \<and>
   distinct (map name [\<lparr>name = ''A'', amount_spent = 90, weight = 2, note_str = ''''\<rparr>,
                       \<lparr>name = ''B'', amount_spent = 0, weight = 1, note_str = ''''\<rparr>]) \<and>
   (\<exists>bs. balances_of [\<lparr>name = ''A'', amount_spent = 90, weight = 2, note_str = ''''\<rparr>,
                      \<lparr>name = ''B'', amount_spent = 0, weight = 1, note_str = ''''\<rparr>] = Inr bs \<and>
         map snd bs = [30, - 30] \<and> sum_list (map snd bs) = 0)"
  using balance_zero_sum
    [of "[\<lparr>name = ''A'', amount_spent = 90, weight = 2, note_str = ''''\<rparr>,
          \<lparr>name = ''B'', amount_spent = 0, weight = 1, note_str = ''''\<rparr>]"]
  by (simp add: total_weight_def total_spendings_def)

text \<open>
  Claim C10. \<^verbatim>\<open>compute_settlements\<close> keys its fair-share and balance dictionaries by
  name. For a list in which two records have the same name (and whose total weight is not
  0, so that no division fails) the balance dictionary has one entry per distinct name,
  hence fewer entries than records; the entry of a name is computed from the amount and
  weight of the last record with that name, while the total spend and the total weight in
  it are the sums over all records, duplicates included.
\<close>

theorem duplicate_names_share_one_balance:
  assumes "\<not> distinct (map name ps)" and "total_weight ps \<noteq> 0"
  shows "\<exists>bs. balances_of ps = Inr bs \<and> distinct (map fst bs) \<and> fst ` set bs = name ` set ps \<and>
     (\<forall>p\<in>set ps. map_of bs (name p) =
        Some (let q = last (filter (\<lambda>q. name q = name p) ps)
              in amount_spent q - sum_list (map amount_spent ps) * weight q / sum_list (map weight ps))) \<and>
     length bs < length ps"
proof -
  obtain bs where bs: "balances_of ps = Inr bs" "distinct (map fst bs)" "fst ` set bs = name ` set ps"
    using balances_of_fold [OF assms(2)] by (simp add: dict_fold_distinct dict_fold_keys)
  have look: "\<forall>p\<in>set ps. map_of bs (name p) =
        Some (let q = last (filter (\<lambda>q. name q = name p) ps)
              in amount_spent q - sum_list (map amount_spent ps) * weight q / sum_list (map weight ps))"
    using balances_of_map_of [OF assms(2)] bs(1)
    by (auto simp: total_weight_def total_spendings_def)
  have "length bs = card (fst ` set bs)"
    using bs(2) by (metis distinct_card length_map set_map)
  also have "\<dots> = card (set (map name ps))" by (simp add: bs(3))
  also have "\<dots> < length (map name ps)"
    using assms(1) by (metis card_distinct card_length le_neq_implies_less)
  finally have "length bs < length ps" by simp
  with bs look show ?thesis by blast
qed

theorem duplicate_names_share_one_balance_witness:
  "\<not> distinct (map name [\<lparr>name = ''A'', amount_spent = 100, weight = 1, note_str = ''''\<rparr>,
                          \<lparr>name = ''A'', amount_spent = 0, weight = 3, note_str = ''''\<rparr>]) \<and>
   total_weight [\<lparr>name = ''A'', amount_spent = 100, weight = 1, note_str = ''''\<rparr>,
                 \<lparr>name = ''A'', amount_spent = 0, weight = 3, note_str = ''''\<rparr>] \<noteq> 0 \<and>
   (\<exists>bs. balances_of [\<lparr>name = ''A'', amount_spent = 100, weight = 1, note_str = ''''\<rparr>,
                      \<lparr>name = ''A'', amount_spent = 0, weight = 3, note_str = ''''\<rparr>] = Inr bs \<and>
         map_of bs ''A'' = Some (- 75) \<and> length bs < 2)"
proof -
  let ?ps = "[\<lparr>name = ''A'', amount_spent = 100, weight = 1, note_str = ''''\<rparr>,
              \<lparr>name = ''A'', amount_spent = 0, weight = 3, note_str = ''''\<rparr>]"
  have h1: "\<not> distinct (map name ?ps)" by simp
  have h2: "total_weight ?ps \<noteq> 0" by (simp add: total_weight_def)
  from duplicate_names_share_one_balance [OF h1 h2]
  obtain bs where bs: "balances_of ?ps = Inr bs"
    and look: "\<forall>p\<in>set ?ps. map_of bs (name p) =
        Some (let q = last (filter (\<lambda>q. name q = name p) ?ps)
              in amount_spent q - sum_list (map amount_spent ?ps) * weight q / sum_list (map weight ?ps))"
    and len: "length bs < length ?ps"
    by blast
  from look have "map_of bs ''A'' = Some (- 75)" by simp
  with bs len h1 h2 show ?thesis by simp
qed

subsection \<open>The settlement loop: one step preserves the invariants\<close>
















subsection \<open>The settlement loop: the final state\<close>











subsection \<open>Debtors and creditors\<close>

















subsection \<open>The settlement solver\<close>








subsection \<open>The name deduplicator: the scan and trimming\<close>

lemma scan_step_slot:
  "scan_step b m e = (case scan_slot b e of None \<Rightarrow> m | Some k \<Rightarrow> max m (Suc k))"
  by (simp add: scan_step_def scan_slot_def numeral_2_eq_2 split: option.splits)

lemma scan_fold_Max:
  "foldl (scan_step b) m es = Max (insert m (Suc ` set (List.map_filter (scan_slot b) es)))"
proof (induction es arbitrary: m)
  case Nil
  then show ?case by (simp add: List.map_filter_simps)
next
  case (Cons e es)
  let ?S = "Suc ` set (List.map_filter (scan_slot b) es)"
  have fin: "finite ?S" by simp
  show ?case
  proof (cases "scan_slot b e")
    case None
    then have "scan_step b m e = m" by (simp add: scan_step_slot)
    with None show ?thesis by (simp add: Cons List.map_filter_simps)
  next
    case (Some k)
    then have st: "scan_step b m e = max m (Suc k)" by (simp add: scan_step_slot)
    have "Max (insert (max m (Suc k)) ?S) = Max (insert m (insert (Suc k) ?S))"
    proof (cases "?S = {}")
      case True
      then show ?thesis by (simp add: max.commute)
    next
      case False
      with fin show ?thesis by (simp add: max.assoc)
    qed
    with Some st show ?thesis by (simp add: Cons List.map_filter_simps)
  qed
qed

lemma dropWhile_id: "xs \<noteq> [] \<Longrightarrow> \<not> P (hd xs) \<Longrightarrow> dropWhile P xs = xs"
  by (cases xs) simp_all

lemma last_dropWhile: "dropWhile P xs \<noteq> [] \<Longrightarrow> last (dropWhile P xs) = last xs"
  by (induction xs) (auto split: if_splits)

lemma strip_Nil [simp]: "strip [] = []"
  by (simp add: strip_def)

lemma strip_hd: "strip s \<noteq> [] \<Longrightarrow> \<not> is_space (hd (strip s))"
proof -
  let ?u = "dropWhile is_space s"
  let ?t = "dropWhile is_space (rev ?u)"
  assume "strip s \<noteq> []"
  then have t: "?t \<noteq> []" by (simp add: strip_def)
  then have "rev ?u \<noteq> []" by (metis dropWhile.simps(1))
  then have u: "?u \<noteq> []" by simp
  have "hd (strip s) = last ?t" using t by (simp add: strip_def hd_rev)
  also have "\<dots> = last (rev ?u)" using t by (rule last_dropWhile)
  also have "\<dots> = hd ?u" using u by (simp add: last_rev)
  finally show ?thesis using hd_dropWhile [OF u] by simp
qed

lemma strip_last: "strip s \<noteq> [] \<Longrightarrow> \<not> is_space (last (strip s))"
proof -
  let ?t = "dropWhile is_space (rev (dropWhile is_space s))"
  assume "strip s \<noteq> []"
  then have t: "?t \<noteq> []" by (simp add: strip_def)
  have "last (strip s) = hd ?t" using t by (simp add: strip_def last_rev)
  then show ?thesis using hd_dropWhile [OF t] by simp
qed

lemma strip_id: "xs \<noteq> [] \<Longrightarrow> \<not> is_space (hd xs) \<Longrightarrow> \<not> is_space (last xs) \<Longrightarrow> strip xs = xs"
proof -
  assume a: "xs \<noteq> []" "\<not> is_space (hd xs)" "\<not> is_space (last xs)"
  then have 1: "dropWhile is_space xs = xs" by (simp add: dropWhile_id)
  have "dropWhile is_space (rev xs) = rev xs"
    using a by (intro dropWhile_id) (simp_all add: hd_rev)
  with 1 show ?thesis by (simp add: strip_def)
qed

lemma strip_strip [simp]: "strip (strip s) = strip s"
  by (cases "strip s = []") (simp_all add: strip_id strip_hd strip_last)

lemma base_of_stripped [simp]: "strip (base_of nm) = base_of nm"
  by (simp add: base_of_def Let_def split: option.splits)

subsection \<open>The name deduplicator: the returned name\<close>

text \<open>
  Claim C4. The returned name is meant to collide with no existing name. For a blank
  candidate it can: the base is empty, the suffix \<^verbatim>\<open> (2)\<close> is appended to nothing, and the
  result \<^verbatim>\<open> (2)\<close> is, once trimmed, the existing name \<^verbatim>\<open>(2)\<close>.
\<close>

theorem blank_name_collides:
  "generate_unique_name '' '' [''(2)'', ''''] = '' (2)'' \<and> collides '' (2)'' ''(2)''"
  by code_simp

text \<open>
  Claim C8. Repeated calls with the same base are meant to give the base, then the base
  with \<^verbatim>\<open> (2)\<close>, \<^verbatim>\<open> (3)\<close> and so on. For the empty base (a blank candidate) the third call
  returns \<^verbatim>\<open> (2)\<close> again instead of \<^verbatim>\<open> (3)\<close>: the earlier \<^verbatim>\<open> (2)\<close> is trimmed to \<^verbatim>\<open>(2)\<close>
  before the scan and no longer matches.
\<close>

theorem blank_name_repeats:
  "dedupe_sequence '''' 3 = ['''', '' (2)'', '' (2)''] \<and>
   dedupe_sequence '' '' 3 = ['''', '' (2)'', '' (2)''] \<and>
   suffixed '''' 3 = '' (3)''"
  by code_simp

subsection \<open>Digits and case folding\<close>

lemma digit_char: "d < 10 \<Longrightarrow> is_digit (char_of (48 + d)) \<and> digit_val (char_of (48 + d)) = d"
proof -
  assume "d < 10"
  then have "d \<in> {0, 1, 2, 3, 4, 5, 6, 7, 8, 9}" by auto
  then show ?thesis
    by (elim insertE emptyE) (simp_all add: is_digit_def digit_val_def char_of_eq_iff take_bit_eq_mod)
qed

lemma is_digit_not_space: "is_digit c \<Longrightarrow> \<not> is_space c"
  by (auto simp: is_digit_def is_space_def)

lemma is_digit_lower: "is_digit c \<Longrightarrow> lower_char c = c"
  by (auto simp: is_digit_def lower_char_def)

lemma str_nat_digits: "str_nat n \<noteq> [] \<and> list_all is_digit (str_nat n) \<and> int_of_digits (str_nat n) = n"
proof (induction n rule: str_nat.induct)
  case (1 n)
  show ?case
  proof (cases "n < 10")
    case True
    then show ?thesis
      using digit_char [of n] by (simp add: str_nat.simps [of n] int_of_digits_def)
  next
    case False
    then have m: "n mod 10 < 10" by simp
    from False 1 have ih: "str_nat (n div 10) \<noteq> []" "list_all is_digit (str_nat (n div 10))"
      "int_of_digits (str_nat (n div 10)) = n div 10" by simp_all
    from False ih digit_char [OF m] show ?thesis
      by (simp add: str_nat.simps [of n] int_of_digits_def)
  qed
qed

lemma lower_char_fixed:
  assumes "lower_char c = d" and "\<not> (97 \<le> (of_char d :: nat) \<and> (of_char d :: nat) \<le> 122)"
  shows "c = d"
proof (cases "65 \<le> (of_char c :: nat) \<and> (of_char c :: nat) \<le> 90")
  case True
  then have "d = char_of ((of_char c :: nat) + 32)"
    using assms(1) by (simp add: lower_char_def Let_def)
  then have "(of_char d :: nat) = ((of_char c :: nat) + 32) mod 256" by simp
  with True assms(2) show ?thesis by auto
next
  case False
  with assms(1) show ?thesis by (auto simp: lower_char_def Let_def)
qed

subsection \<open>The name deduplicator: candidates that are not blank\<close>

lemma tail_match_Nil [simp]: "tail_match [] = Some None"
  by (simp add: tail_match_def suffix_group_def at_end_def)

lemma tail_match_suffix:
  assumes "ds \<noteq> []" and "list_all is_digit ds"
  shows "tail_match ('' ('' @ ds @ '')'') = Some (Some ds)"
proof -
  have nd: "\<not> is_digit CHR '')''" by (simp add: is_digit_def)
  have all: "\<forall>c\<in>set ds. is_digit c" using assms(2) by (simp add: list_all_iff)
  have t: "takeWhile is_digit (ds @ '')'') = ds"
    using all nd by (simp add: takeWhile_append2)
  have d: "dropWhile is_digit (ds @ '')'') = '')''"
    using all nd by (simp add: dropWhile_append2)
  have "suffix_group ('' ('' @ ds @ '')'') = Some (ds, [])"
    using assms(1) by (simp add: suffix_group_def t d Let_def)
  then show ?thesis by (simp add: tail_match_def at_end_def)
qed

lemma lower_length [simp]: "length (lower s) = length s"
  by (simp add: lower_def)

lemma lower_append [simp]: "lower (a @ b) = lower a @ lower b"
  by (simp add: lower_def)

lemma pattern_match_prefix:
  assumes "lower b' = lower b"
  shows "pattern_match b (b' @ s) = tail_match s"
proof -
  have len: "length b' = length b" using assms by (metis lower_length)
  then show ?thesis using assms by (simp add: pattern_match_def)
qed

lemma lower_fixed:
  assumes "lower s = t"
    and "\<forall>d\<in>set t. \<not> (97 \<le> (of_char d :: nat) \<and> (of_char d :: nat) \<le> 122)"
  shows "s = t"
  using assms
proof (induction s arbitrary: t)
  case Nil
  then show ?case by (simp add: lower_def)
next
  case (Cons c s)
  from Cons.prems(1) have t: "t = lower_char c # lower s" by (simp add: lower_def)
  have nl: "\<not> (97 \<le> (of_char (lower_char c) :: nat) \<and> (of_char (lower_char c) :: nat) \<le> 122)"
    using Cons.prems(2) unfolding t by simp
  have rest: "\<forall>d\<in>set (lower s). \<not> (97 \<le> (of_char d :: nat) \<and> (of_char d :: nat) \<le> 122)"
    using Cons.prems(2) unfolding t by simp
  have "c = lower_char c" using refl nl by (rule lower_char_fixed)
  moreover have "s = lower s" using refl rest by (rule Cons.IH)
  ultimately show ?case unfolding t by simp
qed

text \<open>The suffix appended for the number \<open>k\<close>.\<close>

lemma suffix_no_letters:
  "\<forall>d\<in>set ('' ('' @ str_nat k @ '')''). \<not> (97 \<le> (of_char d :: nat) \<and> (of_char d :: nat) \<le> 122)"
proof -
  have "\<not> (97 \<le> (of_char d :: nat) \<and> (of_char d :: nat) \<le> 122)" if "is_digit d" for d
    using that by (auto simp: is_digit_def)
  moreover have "\<forall>d\<in>set (str_nat k). is_digit d"
    using str_nat_digits [of k] by (simp add: list_all_iff)
  ultimately show ?thesis by auto
qed

lemma lower_suffix: "lower ('' ('' @ str_nat k @ '')'') = '' ('' @ str_nat k @ '')''"
proof -
  have "\<forall>d\<in>set (str_nat k). lower_char d = d"
    using str_nat_digits [of k] by (simp add: list_all_iff is_digit_lower)
  then have "map lower_char (str_nat k) = str_nat k" by (simp add: map_idI)
  then show ?thesis by (simp add: lower_def lower_char_def)
qed

lemma strip_suffixed:
  assumes "strip b = b" and "b \<noteq> []"
  shows "strip (b @ '' ('' @ str_nat k @ '')'') = b @ '' ('' @ str_nat k @ '')''"
proof (rule strip_id)
  show "b @ '' ('' @ str_nat k @ '')'' \<noteq> []" by simp
  have "\<not> is_space (hd (strip b))" using assms by (intro strip_hd) simp
  then show "\<not> is_space (hd (b @ '' ('' @ str_nat k @ '')''))" using assms by simp
  show "\<not> is_space (last (b @ '' ('' @ str_nat k @ '')''))" by (simp add: is_space_def)
qed

lemma collides_base_slot:
  assumes "strip b = b" and "collides b e"
  shows "scan_slot b e = Some 1"
proof -
  from assms have l: "lower (strip e) = lower b" by (simp add: collides_def)
  have "pattern_match b (strip e @ []) = tail_match []"
    using l by (rule pattern_match_prefix)
  then show ?thesis by (simp add: scan_slot_def)
qed

lemma collides_suffixed_slot:
  assumes "strip b = b" and "b \<noteq> []" and "collides (b @ '' ('' @ str_nat k @ '')'') e"
  shows "scan_slot b e = Some k"
proof -
  define sfx where "sfx = '' ('' @ str_nat k @ '')''"
  define e' where "e' = strip e"
  have ls: "lower sfx = sfx" unfolding sfx_def by (rule lower_suffix)
  have nl: "\<forall>d\<in>set sfx. \<not> (97 \<le> (of_char d :: nat) \<and> (of_char d :: nat) \<le> 122)"
    unfolding sfx_def by (rule suffix_no_letters)
  have "strip (b @ sfx) = b @ sfx"
    unfolding sfx_def using assms(1,2) by (rule strip_suffixed)
  moreover have "lower (strip (b @ sfx)) = lower e'"
    using assms(3) unfolding collides_def sfx_def e'_def .
  ultimately have l: "lower e' = lower b @ sfx" by (simp add: ls)
  define b' where "b' = take (length b) e'"
  define s where "s = drop (length b) e'"
  have e: "e' = b' @ s" by (simp add: b'_def s_def)
  have "lower b' = take (length b) (lower e')" by (simp add: b'_def lower_def take_map)
  then have lb: "lower b' = lower b" by (simp add: l)
  have "lower s = drop (length b) (lower e')" by (simp add: s_def lower_def drop_map)
  then have "lower s = sfx" by (simp add: l)
  then have s: "s = sfx" using nl by (rule lower_fixed)
  have "pattern_match b e' = tail_match sfx"
    unfolding e s using lb by (rule pattern_match_prefix)
  also have "\<dots> = Some (Some (str_nat k))"
    unfolding sfx_def using str_nat_digits [of k] by (intro tail_match_suffix) simp_all
  finally have "pattern_match b (strip e) = Some (Some (str_nat k))" by (simp add: e'_def)
  then show ?thesis using str_nat_digits [of k] by (simp add: scan_slot_def)
qed

lemma collides_refl: "collides a a"
  by (simp add: collides_def)

lemma generate_unique_name_Max:
  "generate_unique_name nm existing =
     (let m = Max (insert 1 (Suc ` set (List.map_filter (scan_slot (base_of nm)) existing)))
      in if m = 1 then base_of nm else base_of nm @ '' ('' @ str_nat m @ '')'')"
  by (simp add: generate_unique_name_def Let_def scan_fold_Max)

lemma set_map_filter_iff: "k \<in> set (List.map_filter f xs) \<longleftrightarrow> (\<exists>x\<in>set xs. f x = Some k)"
  by (induction xs) (auto split: option.splits)

lemma slot_in_scan:
  assumes "e \<in> set existing" and "scan_slot b e = Some k"
  shows "Suc k \<le> Max (insert 1 (Suc ` set (List.map_filter (scan_slot b) existing)))"
proof (rule Max_ge)
  show "finite (insert 1 (Suc ` set (List.map_filter (scan_slot b) existing)))" by simp
  have "k \<in> set (List.map_filter (scan_slot b) existing)"
    using assms by (auto simp: set_map_filter_iff)
  then show "Suc k \<in> insert 1 (Suc ` set (List.map_filter (scan_slot b) existing))"
    by simp
qed

text \<open>
  For every candidate that is not blank the result collides with no existing name.
\<close>

lemma generate_unique_name_no_collision:
  assumes "base_of nm \<noteq> []" and "e \<in> set existing"
  shows "\<not> collides (generate_unique_name nm existing) e"
proof
  define b where "b = base_of nm"
  define m where "m = Max (insert 1 (Suc ` set (List.map_filter (scan_slot b) existing)))"
  assume c: "collides (generate_unique_name nm existing) e"
  have st: "strip b = b" by (simp add: b_def)
  have ne: "b \<noteq> []" using assms(1) by (simp add: b_def)
  have g: "generate_unique_name nm existing = (if m = 1 then b else b @ '' ('' @ str_nat m @ '')'')"
    unfolding m_def b_def by (simp only: generate_unique_name_Max Let_def)
  show False
  proof (cases "m = 1")
    case True
    with g c have "collides b e" by simp
    with st have "scan_slot b e = Some 1" by (rule collides_base_slot)
    from slot_in_scan [OF assms(2) this] have "Suc 1 \<le> m" by (simp only: m_def)
    with True show False by simp
  next
    case False
    with g c have "collides (b @ '' ('' @ str_nat m @ '')'') e" by simp
    with st ne have "scan_slot b e = Some m" by (rule collides_suffixed_slot)
    from slot_in_scan [OF assms(2) this] have "Suc m \<le> m" by (simp only: m_def)
    then show False by simp
  qed
qed

lemma scan_slot_suffixed:
  assumes "strip b = b" and "b \<noteq> []" and "1 \<le> k"
  shows "scan_slot b (suffixed b k) = Some k"
proof (cases "k = 1")
  case True
  have "scan_slot b b = Some 1"
    using assms(1) collides_refl by (rule collides_base_slot)
  with True show ?thesis by (simp add: suffixed_def)
next
  case False
  have "scan_slot b (b @ '' ('' @ str_nat k @ '')'') = Some k"
    using assms(1,2) collides_refl by (rule collides_suffixed_slot)
  with False show ?thesis by (simp add: suffixed_def)
qed

lemma slots_of_suffixed:
  assumes "strip b = b" and "b \<noteq> []"
  shows "set (List.map_filter (scan_slot b) (map (suffixed b) [1..<Suc n])) = {1..<Suc n}"
proof (rule set_eqI)
  fix k
  show "k \<in> set (List.map_filter (scan_slot b) (map (suffixed b) [1..<Suc n])) \<longleftrightarrow> k \<in> {1..<Suc n}"
  proof
    assume "k \<in> set (List.map_filter (scan_slot b) (map (suffixed b) [1..<Suc n]))"
    then obtain x where x: "x \<in> set (map (suffixed b) [1..<Suc n])" "scan_slot b x = Some k"
      unfolding set_map_filter_iff by blast
    from x(1) obtain j where j: "j \<in> set [1..<Suc n]" "x = suffixed b j"
      unfolding set_map by blast
    from j(1) have r: "1 \<le> j" "j < Suc n" unfolding set_upt by simp_all
    from scan_slot_suffixed [OF assms r(1)] x(2) j(2) have "k = j" by simp
    with r show "k \<in> {1..<Suc n}" by simp
  next
    assume k: "k \<in> {1..<Suc n}"
    then have "1 \<le> k" by simp
    from scan_slot_suffixed [OF assms this]
    have o: "scan_slot b (suffixed b k) = Some k" .
    have "k \<in> set [1..<Suc n]" using k unfolding set_upt .
    then have "suffixed b k \<in> set (map (suffixed b) [1..<Suc n])"
      unfolding set_map by (rule imageI)
    with o show "k \<in> set (List.map_filter (scan_slot b) (map (suffixed b) [1..<Suc n]))"
      unfolding set_map_filter_iff by blast
  qed
qed

lemma Max_scan_range: "Max (insert 1 (Suc ` {1..<Suc n})) = Suc n"
proof (rule Max_eqI)
  show "finite (insert 1 (Suc ` {1..<Suc n}))" by simp
  show "y \<le> Suc n" if "y \<in> insert 1 (Suc ` {1..<Suc n})" for y
    using that by auto
  show "Suc n \<in> insert 1 (Suc ` {1..<Suc n})"
    by (cases n) auto
qed

lemma generate_unique_name_next:
  assumes "base_of b = b" and "b \<noteq> []"
  shows "generate_unique_name b (map (suffixed b) [1..<Suc n]) = suffixed b (Suc n)"
proof -
  have st: "strip b = b" using base_of_stripped [of b] by (simp only: assms(1))
  have "Max (insert 1 (Suc ` set (List.map_filter (scan_slot (base_of b))
           (map (suffixed b) [1..<Suc n])))) = Suc n"
    by (simp only: assms(1) slots_of_suffixed [OF st assms(2)] Max_scan_range)
  then have "generate_unique_name b (map (suffixed b) [1..<Suc n]) =
      (if Suc n = 1 then b else b @ '' ('' @ str_nat (Suc n) @ '')'')"
    by (simp only: generate_unique_name_Max Let_def assms(1))
  then show ?thesis by (simp only: suffixed_def)
qed

text \<open>
  For every base that is not empty, is trimmed and carries no suffix (the base extraction
  leaves it unchanged), \<open>n\<close> calls against the accumulating list give the base, then the
  base with the suffixes 2 to \<open>n\<close>.
\<close>

lemma dedupe_sequence_suffixed:
  assumes "base_of b = b" and "b \<noteq> []"
  shows "dedupe_sequence b n = map (suffixed b) [1..<Suc n]"
proof (induction n)
  case 0
  show ?case by simp
next
  case (Suc n)
  have "dedupe_sequence b (Suc n) =
      map (suffixed b) [1..<Suc n] @ [generate_unique_name b (map (suffixed b) [1..<Suc n])]"
    by (simp add: Suc Let_def del: upt_Suc)
  also have "\<dots> = map (suffixed b) [1..<Suc n] @ [suffixed b (Suc n)]"
    by (simp only: generate_unique_name_next [OF assms])
  also have "\<dots> = map (suffixed b) [1..<Suc (Suc n)]" by simp
  finally show ?case .
qed

lemma dedupe_sequence_example: "dedupe_sequence ''Sam'' 3 = [''Sam'', ''Sam (2)'', ''Sam (3)'']"
  by code_simp

subsection \<open>The name deduplicator: the rule in words\<close>

lemma not_digit_paren [simp]: "\<not> is_digit CHR ''(''" "\<not> is_digit CHR '')''" "\<not> is_digit CHR 0x20"
  by (simp_all add: is_digit_def)

lemma split_suffix_intro:
  assumes "is_number ds"
  shows "split_suffix (pre @ '' ('' @ ds @ '')'') = Some (pre, ds)"
proof -
  let ?t = "pre @ '' ('' @ ds @ '')''"
  have all: "\<forall>c\<in>set ds. is_digit c" and ne: "ds \<noteq> []"
    using assms by (simp_all add: is_number_def list_all_iff)
  have body: "butlast ?t = (pre @ '' ('') @ ds"
    by (simp add: butlast_append)
  have rb: "rev (butlast ?t) = rev ds @ rev (pre @ '' ('')" by (simp only: body rev_append)
  have allr: "\<And>c. c \<in> set (rev ds) \<Longrightarrow> is_digit c" using all by simp
  have hd: "rev (pre @ '' ('') = CHR ''('' # CHR 0x20 # rev pre" by simp
  have "takeWhile is_digit (rev ds @ rev (pre @ '' ('')) = rev ds @ takeWhile is_digit (rev (pre @ '' (''))"
    using allr by (rule takeWhile_append2)
  then have tw: "takeWhile is_digit (rev (butlast ?t)) = rev ds"
    unfolding rb hd by simp
  have "dropWhile is_digit (rev ds @ rev (pre @ '' ('')) = dropWhile is_digit (rev (pre @ '' (''))"
    using allr by (rule dropWhile_append2)
  then have dw: "dropWhile is_digit (rev (butlast ?t)) = rev (pre @ '' ('')"
    unfolding rb hd by simp
  show ?thesis
    unfolding split_suffix_def Let_def tw dw using ne by (simp add: butlast_append)
qed

lemma split_suffix_elim:
  assumes "split_suffix t = Some (pre, ds)"
  shows "t = pre @ '' ('' @ ds @ '')'' \<and> is_number ds"
proof -
  define body where "body = butlast t"
  define ds' where "ds' = rev (takeWhile is_digit (rev body))"
  define pre' where "pre' = rev (dropWhile is_digit (rev body))"
  from assms have t: "t \<noteq> []" "last t = CHR '')''"
    by (auto simp: split_suffix_def split: if_splits)
  from assms t have c: "ds' \<noteq> []" "2 \<le> length pre'" "last pre' = CHR ''(''"
    "last (butlast pre') = CHR 0x20" "pre = butlast (butlast pre')" "ds = ds'"
    unfolding split_suffix_def Let_def body_def [symmetric] ds'_def [symmetric] pre'_def [symmetric]
    by (auto split: if_splits)
  have "rev body = takeWhile is_digit (rev body) @ dropWhile is_digit (rev body)" by simp
  then have "body = rev (dropWhile is_digit (rev body)) @ rev (takeWhile is_digit (rev body))"
    by (metis rev_append rev_rev_ident)
  then have b: "body = pre' @ ds'" by (simp add: ds'_def pre'_def)
  obtain xs a b where xs: "pre' = xs @ [a, b]"
  proof (cases pre' rule: rev_cases)
    case Nil
    with c(2) show ?thesis by simp
  next
    case (snoc ys y)
    show ?thesis
    proof (cases ys rule: rev_cases)
      case Nil
      with snoc c(2) show ?thesis by simp
    next
      case (snoc zs z)
      with \<open>pre' = ys @ [y]\<close> have "pre' = zs @ [z, y]" by simp
      then show ?thesis by (rule that)
    qed
  qed
  have "b = CHR ''(''" using c(3) by (simp add: xs)
  moreover have "a = CHR 0x20" using c(4) by (simp add: xs butlast_append)
  moreover have "pre = xs" using c(5) by (simp add: xs butlast_append)
  ultimately have "pre' = pre @ '' (''" by (simp add: xs)
  moreover have "t = body @ '')''"
    unfolding body_def using t by (metis append_butlast_last_id)
  ultimately have "t = pre @ '' ('' @ ds @ '')''" using b c(6) by simp
  moreover have "list_all is_digit ds'"
    unfolding ds'_def by (simp add: list_all_iff) (meson set_takeWhileD)
  ultimately show ?thesis using c(1,6) by (simp add: is_number_def)
qed

text \<open>
  \<open>split_suffix\<close> finds exactly the decompositions of a text into a text before and a
  suffix made of a space, a parenthesised number and nothing after it.
\<close>

lemma split_suffix_iff:
  "split_suffix t = Some (pre, ds) \<longleftrightarrow> t = pre @ '' ('' @ ds @ '')'' \<and> is_number ds"
  using split_suffix_intro split_suffix_elim by blast

















end
